theory Spec2Isabelle
  imports Main "HOL-Library.Word"
begin

section \<open>The sparse Merkle tree of \<^verbatim>\<open>src/merkle_tree.ts\<close>\<close>

text \<open>
  The class \<^verbatim>\<open>MerkleTree\<close> is embedded as a record with one function per method.
  JavaScript numbers that hold integers are modelled as \<^typ>\<open>int\<close>; where the source
  adds or subtracts, the result is rounded as a double rounds it, which changes
  nothing for magnitudes up to \<open>2^53\<close> and so for every index of a tree of depth at
  most 32. A \<^verbatim>\<open>Buffer\<close> of leaf data is a list of bytes, and \<^verbatim>\<open>undefined\<close> is \<open>None\<close>.
  A thrown exception is the \<open>Inl\<close> branch of a sum.
\<close>

subsection \<open>Buffers and the hasher\<close>

type_synonym buffer = "8 word list"

definition MAX_DEPTH :: int where
  "MAX_DEPTH = 32"

definition LEAF_BYTES :: nat where
  "LEAF_BYTES = 64"

text \<open>\<^verbatim>\<open>Buffer.alloc(LEAF_BYTES)\<close>: 64 zero bytes.\<close>

definition zero64 :: buffer where
  "zero64 = replicate LEAF_BYTES 0"

text \<open>
  The class \<^verbatim>\<open>Sha256Hasher\<close> is imported from a file that is not part of the sources.
  Its two methods are taken as parameters; \<open>'d\<close> is the type of digests.
\<close>

record 'd hasher =
  hash :: "buffer \<Rightarrow> 'd"
  compress :: "'d \<Rightarrow> 'd \<Rightarrow> 'd"

datatype error = Bad_depth | TypeError

subsection \<open>JavaScript containers\<close>

text \<open>
  A \<^verbatim>\<open>Map<number, V>\<close> iterates in insertion order, and \<^verbatim>\<open>set\<close> on a key that is
  present replaces the value where it stands: an association list, first entry first.
\<close>

type_synonym 'v jsmap = "(int \<times> 'v) list"

fun Map_set :: "int \<Rightarrow> 'v \<Rightarrow> 'v jsmap \<Rightarrow> 'v jsmap" where
  "Map_set k v [] = [(k, v)]"
| "Map_set k v ((k', v') # m) =
     (if k' = k then (k, v) # m else (k', v') # Map_set k v m)"

definition Map_get :: "int \<Rightarrow> 'v jsmap \<Rightarrow> 'v option" where
  "Map_get k m = map_of m k"

definition Map_has :: "int \<Rightarrow> 'v jsmap \<Rightarrow> bool" where
  "Map_has k m = (map_of m k \<noteq> None)"

definition Map_size :: "'v jsmap \<Rightarrow> nat" where
  "Map_size m = length m"

text \<open>
  An array whose slots may be holes or hold \<^verbatim>\<open>undefined\<close>: a list of options.
  Reading outside the array gives \<^verbatim>\<open>undefined\<close>; writing past the end extends the
  array, leaving holes.
\<close>

definition array_get :: "'a option list \<Rightarrow> int \<Rightarrow> 'a option" where
  "array_get xs i = (if 0 \<le> i \<and> i < int (length xs) then xs ! nat i else None)"

definition array_put :: "'a option list \<Rightarrow> nat \<Rightarrow> 'a option \<Rightarrow> 'a option list" where
  "array_put xs i v =
     (if i < length xs then xs[i := v]
      else xs @ replicate (i - length xs) None @ [v])"

text \<open>
  \<^verbatim>\<open>zeroHashesByLevel\<close> is filled without holes, so it is a plain list; a read
  outside it is \<^verbatim>\<open>undefined\<close>.
\<close>

definition zero_at :: "'d list \<Rightarrow> int \<Rightarrow> 'd option" where
  "zero_at Z i = (if 0 \<le> i \<and> i < int (length Z) then Some (Z ! nat i) else None)"

text \<open>
  A plain object with integer-like keys, in the order of \<^verbatim>\<open>Object.keys\<close> (which is
  also the order \<^verbatim>\<open>JSON.stringify\<close> writes and \<^verbatim>\<open>JSON.parse\<close> restores): the array
  indices \<open>0 .. 2^32 - 2\<close> ascending, then every other key in insertion order.
  Keys are kept as numbers: the decimal string of an integer parses back to it.
\<close>

definition is_array_index :: "int \<Rightarrow> bool" where
  "is_array_index k = (0 \<le> k \<and> k < 2 ^ 32 - 1)"

definition goes_before :: "int \<Rightarrow> int \<Rightarrow> bool" where
  "goes_before k k' =
     (if is_array_index k then (if is_array_index k' then k < k' else True) else False)"

fun object_put :: "int \<Rightarrow> 'v \<Rightarrow> (int \<times> 'v) list \<Rightarrow> (int \<times> 'v) list" where
  "object_put k v [] = [(k, v)]"
| "object_put k v ((k', v') # ps) =
     (if k' = k then (k, v) # ps
      else if goes_before k k' then (k, v) # (k', v') # ps
      else (k', v') # object_put k v ps)"

text \<open>
  The persisted document: one entry per level (the key parsed by \<^verbatim>\<open>parseInt\<close>), each
  an object from node index to digest. \<^verbatim>\<open>Buffer.toJSON\<close> followed by \<^verbatim>\<open>Buffer.from\<close>
  gives back the same bytes, so a digest stands for its own JSON form.
\<close>

type_synonym 'd json = "(nat \<times> (int \<times> 'd) list) list"

subsection \<open>The tree object\<close>

record 'd MerkleTree =
  db :: "string \<Rightarrow> 'd json option"
  name :: string
  depth :: int
  hasher :: "'d hasher"
  root :: "'d option"
  dataBlocks :: "buffer jsmap"
  hashes :: "'d jsmap option list"
  zeroHashesByLevel :: "'d list"

subsection \<open>\<^verbatim>\<open>generateZeroHashesByLevel\<close>\<close>

text \<open>
  The loop \<^verbatim>\<open>for (let i = 1; i < this.depth + 1; i++)\<close>; the third argument counts
  the iterations that remain. The array is empty when the constructor calls the
  method, so each write \<^verbatim>\<open>zeroHashesByLevel[i] = ...\<close> appends.
\<close>

fun zeroHashes_loop :: "'d hasher \<Rightarrow> nat \<Rightarrow> nat \<Rightarrow> 'd list \<Rightarrow> 'd list" where
  "zeroHashes_loop hs i 0 Z = Z"
| "zeroHashes_loop hs i (Suc n) Z =
     zeroHashes_loop hs (Suc i) n (Z @ [compress hs (Z ! (i - 1)) (Z ! (i - 1))])"

definition generateZeroHashesByLevel :: "'d MerkleTree \<Rightarrow> 'd MerkleTree" where
  "generateZeroHashesByLevel t =
     (let Z = zeroHashes_loop (hasher t) 1 (nat (depth t)) [hash (hasher t) zero64]
      in t\<lparr>zeroHashesByLevel := Z, root := zero_at Z (int (length Z) - 1)\<rparr>)"

subsection \<open>\<^verbatim>\<open>indexOfParentNode\<close>\<close>

text \<open>
  \<^verbatim>\<open>Math.round(index/2)\<close>: \<^verbatim>\<open>Math.round x\<close> is \<open>\<lfloor>x + 1/2\<rfloor>\<close>, so on a half of an
  integer it is \<open>(index + 1) div 2\<close>.
\<close>

definition Math_round_half :: "int \<Rightarrow> int" where
  "Math_round_half index = (index + 1) div 2"

definition indexOfParentNode :: "int \<Rightarrow> int" where
  "indexOfParentNode index =
     (if index mod 2 = 0 then index div 2 else Math_round_half index - 1)"

text \<open>
  Division by two and \<^verbatim>\<open>Math.round\<close> of a half are exact on doubles, and the
  subtraction runs only for an odd index, which as a double is below \<open>2^53\<close>.
\<close>

subsection \<open>Sums of doubles and \<^verbatim>\<open>indexOfSibling\<close>\<close>

text \<open>The number of binary digits of a positive integer.\<close>

function bit_length :: "int \<Rightarrow> nat" where
  "bit_length a = (if a \<le> 0 then 0 else Suc (bit_length (a div 2)))"
  by pat_completeness auto
termination
  by (relation "measure nat") auto

declare bit_length.simps [simp del]

text \<open>
  The double nearest to an integer: the integer itself up to \<open>2^53\<close>; beyond, the
  53 leading binary digits, rounded to nearest with ties to the even significand.
  (Overflow to infinity, beyond \<open>2^1024\<close>, is not modelled.)
\<close>

definition double_round :: "int \<Rightarrow> int" where
  "double_round x =
     (if \<bar>x\<bar> \<le> 2 ^ 53 then x
      else
        let e = bit_length \<bar>x\<bar> - 53;
            q = \<bar>x\<bar> div 2 ^ e;
            r = \<bar>x\<bar> mod 2 ^ e;
            half = 2 ^ (e - 1);
            m = (if r < half then q
                 else if half < r then q + 1
                 else if even q then q else q + 1)
        in sgn x * (m * 2 ^ e))"

text \<open>
  The local constant \<^verbatim>\<open>indexOfSibling\<close> of both loops: \<^verbatim>\<open>index + 1\<close> and \<^verbatim>\<open>index - 1\<close>
  are sums of doubles. From \<open>2^53\<close> on every double is even and \<^verbatim>\<open>index + 1\<close> is not
  always a double: \<open>2^53 + 1\<close> rounds back to \<open>2^53\<close>.
\<close>

definition indexOfSibling :: "int \<Rightarrow> int" where
  "indexOfSibling index =
     (if index mod 2 = 0 then double_round (index + 1) else double_round (index - 1))"

text \<open>\<^verbatim>\<open>Number.isSafeInteger\<close>: the integers of magnitude below \<open>2^53\<close>.\<close>

definition safe_integer :: "int \<Rightarrow> bool" where
  "safe_integer x = (- (2 ^ 53) < x \<and> x < 2 ^ 53)"

text \<open>The integers that a number holds: those that are doubles.\<close>

definition is_double :: "int \<Rightarrow> bool" where
  "is_double x = (double_round x = x)"

subsection \<open>\<^verbatim>\<open>generateTreeNodes\<close>\<close>

text \<open>The first loop: one leaf hash per data block, in the blocks' order.\<close>

fun leaf_loop :: "'d hasher \<Rightarrow> buffer jsmap \<Rightarrow> 'd jsmap \<Rightarrow> 'd jsmap" where
  "leaf_loop hs [] level0 = level0"
| "leaf_loop hs ((index, buffer) # rest) level0 =
     leaf_loop hs rest (Map_set index (hash hs buffer) level0)"

text \<open>
  The inner loop over the entries of the level below. \<open>z\<close> is the value read
  from \<^verbatim>\<open>this.zeroHashesByLevel[i-1]\<close>. The hasher is only specified on digests:
  a call of \<^verbatim>\<open>compress\<close> with \<^verbatim>\<open>undefined\<close> is modelled as a thrown \<open>TypeError\<close>.
\<close>

fun level_loop ::
  "'d hasher \<Rightarrow> 'd option \<Rightarrow> 'd jsmap \<Rightarrow> 'd jsmap \<Rightarrow> bool jsmap \<Rightarrow> 'd jsmap \<Rightarrow> error + 'd jsmap"
where
  "level_loop hs z hashesLevelBefore [] processed level = Inr level"
| "level_loop hs z hashesLevelBefore ((index, h) # rest) processed level =
     (let sibling = indexOfSibling index;
          processed' = Map_set sibling True (Map_set index True processed)
      in if \<not> (Map_has sibling processed \<and> Map_has index processed) then
           (case (if Map_has sibling hashesLevelBefore
                  then Map_get sibling hashesLevelBefore else z) of
              None \<Rightarrow> Inl TypeError
            | Some hashOfSiblingNode \<Rightarrow>
                level_loop hs z hashesLevelBefore rest processed'
                  (Map_set (indexOfParentNode index) (compress hs h hashOfSiblingNode) level))
         else level_loop hs z hashesLevelBefore rest processed' level)"

text \<open>
  The outer loop \<^verbatim>\<open>for (let i = 1; i < this.depth + 1; i++)\<close>; the fourth argument
  counts the iterations that remain. \<^verbatim>\<open>this.hashes\<close> has exactly \<open>i\<close> levels when
  iteration \<open>i\<close> starts, so \<^verbatim>\<open>hashes[i-1]\<close> is in range.
\<close>

fun levels_loop ::
  "'d hasher \<Rightarrow> 'd list \<Rightarrow> nat \<Rightarrow> nat \<Rightarrow> 'd jsmap list \<Rightarrow> error + 'd jsmap list"
where
  "levels_loop hs Z i 0 levels = Inr levels"
| "levels_loop hs Z i (Suc n) levels =
     (case level_loop hs (zero_at Z (int i - 1)) (levels ! (i - 1)) (levels ! (i - 1)) [] [] of
        Inl e \<Rightarrow> Inl e
      | Inr level \<Rightarrow> levels_loop hs Z (Suc i) n (levels @ [level]))"

definition generateTreeNodes :: "'d MerkleTree \<Rightarrow> error + 'd MerkleTree" where
  "generateTreeNodes t =
     (case levels_loop (hasher t) (zeroHashesByLevel t) 1 (nat (depth t))
             [leaf_loop (hasher t) (dataBlocks t) []] of
        Inl e \<Rightarrow> Inl e
      | Inr hashes' \<Rightarrow>
          Inr (t\<lparr>hashes := map Some hashes',
                 root := (if Map_size (last hashes') = 0
                          then zero_at (zeroHashesByLevel t)
                                 (int (length (zeroHashesByLevel t)) - 1)
                          else Map_get 0 (last hashes'))\<rparr>))"

subsection \<open>\<^verbatim>\<open>persistTree\<close> and \<^verbatim>\<open>restorePersistedTree\<close>\<close>

fun level_object :: "'d jsmap \<Rightarrow> (int \<times> 'd) list \<Rightarrow> (int \<times> 'd) list" where
  "level_object [] obj = obj"
| "level_object ((index, v) # rest) obj = level_object rest (object_put index v obj)"

text \<open>A hole in \<^verbatim>\<open>this.hashes\<close> makes \<^verbatim>\<open>levelHashes.entries()\<close> throw.\<close>

fun persist_loop :: "nat \<Rightarrow> 'd jsmap option list \<Rightarrow> 'd json \<Rightarrow> error + 'd json" where
  "persist_loop i [] data = Inr data"
| "persist_loop i (None # rest) data = Inl TypeError"
| "persist_loop i (Some levelHashes # rest) data =
     persist_loop (Suc i) rest (data @ [(i, level_object levelHashes [])])"

definition persistTree :: "'d MerkleTree \<Rightarrow> error + 'd MerkleTree" where
  "persistTree t =
     (case persist_loop 0 (hashes t) [] of
        Inl e \<Rightarrow> Inl e
      | Inr data \<Rightarrow> Inr (t\<lparr>db := (db t)(name t \<mapsto> data)\<rparr>))"

fun restore_level :: "(int \<times> 'd) list \<Rightarrow> 'd jsmap \<Rightarrow> 'd jsmap" where
  "restore_level [] m = m"
| "restore_level ((index, v) # rest) m = restore_level rest (Map_set index v m)"

fun restore_loop ::
  "'d json \<Rightarrow> 'd jsmap option list \<Rightarrow> int \<Rightarrow> 'd jsmap option list \<times> int"
where
  "restore_loop [] levels d = (levels, d)"
| "restore_loop ((key, persistedDataForDepth) # rest) levels d =
     restore_loop rest
       (array_put levels key (Some (restore_level persistedDataForDepth []))) (d + 1)"

definition restorePersistedTree :: "'d json \<Rightarrow> 'd MerkleTree \<Rightarrow> error + 'd MerkleTree" where
  "restorePersistedTree data t =
     (case restore_loop data [] 0 of
        (hashes', d) \<Rightarrow>
          (case array_get hashes' (int (length hashes') - 1) of
             None \<Rightarrow> Inl TypeError
           | Some topLevel \<Rightarrow>
               Inr (t\<lparr>hashes := hashes', depth := d - 1, root := Map_get 0 topLevel\<rparr>)))"

subsection \<open>The constructor and \<^verbatim>\<open>MerkleTree.new\<close>\<close>

text \<open>
  The field \<^verbatim>\<open>root\<close> starts as \<^verbatim>\<open>Buffer.alloc(32)\<close> and is overwritten by
  \<^verbatim>\<open>generateZeroHashesByLevel\<close> before anything reads it; the record starts it as
  \<open>None\<close>. \<open>data\<close> is the parsed document, \<open>None\<close> when the store has none.
\<close>

definition MerkleTree_constructor ::
  "(string \<Rightarrow> 'd json option) \<Rightarrow> string \<Rightarrow> int \<Rightarrow> 'd hasher \<Rightarrow> 'd json option
     \<Rightarrow> error + 'd MerkleTree"
where
  "MerkleTree_constructor db0 name0 depth0 hs data =
     (if \<not> (depth0 \<ge> 1 \<and> depth0 \<le> MAX_DEPTH) then Inl Bad_depth
      else
        let t = generateZeroHashesByLevel
                  \<lparr>db = db0, name = name0, depth = depth0, hasher = hs, root = None,
                   dataBlocks = [], hashes = [], zeroHashesByLevel = []\<rparr>
        in case data of
             Some persisted \<Rightarrow> restorePersistedTree persisted t
           | None \<Rightarrow> generateTreeNodes t)"

definition MerkleTree_new ::
  "(string \<Rightarrow> 'd json option) \<Rightarrow> string \<Rightarrow> int \<Rightarrow> 'd hasher \<Rightarrow> error + 'd MerkleTree"
where
  "MerkleTree_new db0 name0 depth0 hs =
     (case MerkleTree_constructor db0 name0 depth0 hs (db0 name0) of
        Inl e \<Rightarrow> Inl e
      | Inr tree \<Rightarrow> persistTree tree)"

subsection \<open>\<^verbatim>\<open>getRoot\<close>, \<^verbatim>\<open>getHashPath\<close>, \<^verbatim>\<open>updateElement\<close>\<close>

definition getRoot :: "'d MerkleTree \<Rightarrow> 'd option" where
  "getRoot t = root t"

text \<open>
  One \<^verbatim>\<open>path\<close> of \<^verbatim>\<open>getHashPath\<close>: the two writes into the fresh array, for the node
  and then for its sibling, each read from the level or from the zero hash \<open>z\<close>.
\<close>

definition path_pair :: "'d jsmap \<Rightarrow> 'd option \<Rightarrow> int \<Rightarrow> 'd option list" where
  "path_pair level z index =
     (let indexOfSibling' = indexOfSibling index;
          path = array_put [] (if index < indexOfSibling' then 0 else 1)
                   (if Map_has index level then Map_get index level else z)
      in array_put path (if indexOfSibling' < index then 0 else 1)
           (if Map_has indexOfSibling' level then Map_get indexOfSibling' level else z))"

text \<open>
  The loop \<^verbatim>\<open>for (let i = 0; i < this.depth; i++)\<close>; the third argument counts the
  iterations that remain. A missing level makes \<^verbatim>\<open>this.hashes[i].has\<close> throw.
\<close>

fun hashPath_loop ::
  "'d MerkleTree \<Rightarrow> nat \<Rightarrow> nat \<Rightarrow> int \<Rightarrow> 'd option list list \<Rightarrow> error + 'd option list list"
where
  "hashPath_loop t i 0 index hashPath = Inr hashPath"
| "hashPath_loop t i (Suc n) index hashPath =
     (case array_get (hashes t) (int i) of
        None \<Rightarrow> Inl TypeError
      | Some level \<Rightarrow>
          hashPath_loop t (Suc i) n (indexOfParentNode index)
            (hashPath @ [path_pair level (zero_at (zeroHashesByLevel t) (int i)) index]))"

definition getHashPath :: "'d MerkleTree \<Rightarrow> int \<Rightarrow> error + 'd option list list" where
  "getHashPath t index = hashPath_loop t 0 (nat (depth t)) index []"

definition updateElement :: "int \<Rightarrow> buffer \<Rightarrow> 'd MerkleTree \<Rightarrow> error + 'd MerkleTree" where
  "updateElement index v t =
     (case generateTreeNodes (t\<lparr>dataBlocks := Map_set index v (dataBlocks t)\<rparr>) of
        Inl e \<Rightarrow> Inl e
      | Inr t' \<Rightarrow> persistTree t')"

text \<open>A sequence of \<^verbatim>\<open>updateElement\<close> calls, stopping at the first exception.\<close>

fun updateElements :: "(int \<times> buffer) list \<Rightarrow> 'd MerkleTree \<Rightarrow> error + 'd MerkleTree" where
  "updateElements [] t = Inr t"
| "updateElements ((index, v) # rest) t =
     (case updateElement index v t of
        Inl e \<Rightarrow> Inl e
      | Inr t' \<Rightarrow> updateElements rest t')"

subsection \<open>A hasher without collisions, for concrete runs\<close>

text \<open>
  Digests as the terms that produce them: two digests are equal only if they were
  computed the same way, which is what a cryptographic hash is used for.
\<close>

datatype digest = Hash buffer | Compress digest digest

definition symbolic_hasher :: "digest hasher" where
  "symbolic_hasher = \<lparr>hash = Hash, compress = Compress\<rparr>"

definition ones64 :: buffer where
  "ones64 = replicate LEAF_BYTES 1"

definition empty_db :: "string \<Rightarrow> 'd json option" where
  "empty_db = (\<lambda>key. None)"

section \<open>Definitions used to state the properties\<close>

text \<open>
  The recurrence of the specification: \<open>Z[0] = hash(zero64)\<close> and
  \<open>Z[i] = compress(Z[i-1], Z[i-1])\<close>.
\<close>

fun Z_spec :: "'d hasher \<Rightarrow> nat \<Rightarrow> 'd" where
  "Z_spec hs 0 = hash hs zero64"
| "Z_spec hs (Suc i) = compress hs (Z_spec hs i) (Z_spec hs i)"

text \<open>
  The digest the tree resolves for node \<open>k\<close> of level \<open>i\<close>: the cached one, else the
  zero hash of the level, as \<^verbatim>\<open>getHashPath\<close> reads it.
\<close>

definition node_digest :: "'d MerkleTree \<Rightarrow> nat \<Rightarrow> int \<Rightarrow> 'd option" where
  "node_digest t i k =
     (case array_get (hashes t) (int i) of
        None \<Rightarrow> None
      | Some level \<Rightarrow>
          (if Map_has k level then Map_get k level else zero_at (zeroHashesByLevel t) (int i)))"

text \<open>The same for a level without holes and the zero hash of the recurrence.\<close>

definition cached_or_zero :: "'d hasher \<Rightarrow> 'd jsmap \<Rightarrow> nat \<Rightarrow> int \<Rightarrow> 'd" where
  "cached_or_zero hs level i k =
     (case Map_get k level of Some h \<Rightarrow> h | None \<Rightarrow> Z_spec hs i)"

text \<open>
  A tree opened on an empty store with \<^verbatim>\<open>MerkleTree.new\<close>, then updated by a sequence
  of \<^verbatim>\<open>updateElement\<close> calls.
\<close>

definition fresh_then :: "int \<Rightarrow> 'd hasher \<Rightarrow> (int \<times> buffer) list \<Rightarrow> error + 'd MerkleTree" where
  "fresh_then d hs us =
     (case MerkleTree_new empty_db ''tree'' d hs of
        Inl e \<Rightarrow> Inl e
      | Inr t \<Rightarrow> updateElements us t)"

text \<open>\<^verbatim>\<open>getHashPath(index)\<close> on such a tree.\<close>

definition fresh_path ::
  "int \<Rightarrow> 'd hasher \<Rightarrow> (int \<times> buffer) list \<Rightarrow> int \<Rightarrow> error + 'd option list list"
where
  "fresh_path d hs us index =
     (case fresh_then d hs us of
        Inl e \<Rightarrow> Inl e
      | Inr t \<Rightarrow> getHashPath t index)"

text \<open>
  What the constructor without persisted data establishes and every
  \<^verbatim>\<open>updateElement\<close> keeps.
\<close>

definition well_formed :: "int \<Rightarrow> 'd hasher \<Rightarrow> 'd MerkleTree \<Rightarrow> bool" where
  "well_formed d hs t =
     (depth t = d \<and> hasher t = hs \<and>
      zeroHashesByLevel t = map (Z_spec hs) [0..<Suc (nat d)] \<and>
      (\<exists>ls. hashes t = map Some ls \<and> length ls = Suc (nat d)))"

text \<open>
  The dense reference tree of the specification: all \<open>2^d\<close> leaves, the value \<open>v\<close> at
  \<open>index\<close> and 64 zero bytes elsewhere, hashed and folded bottom-up; each parent is
  \<open>compress(left, right)\<close> with the lower-index child on the left.
\<close>

fun pair_up :: "'d hasher \<Rightarrow> 'd list \<Rightarrow> 'd list" where
  "pair_up hs (l # r # rest) = compress hs l r # pair_up hs rest"
| "pair_up hs rest = []"

fun dense_levels :: "'d hasher \<Rightarrow> nat \<Rightarrow> 'd list \<Rightarrow> 'd list" where
  "dense_levels hs 0 nodes = nodes"
| "dense_levels hs (Suc d) nodes = dense_levels hs d (pair_up hs nodes)"

definition dense_root :: "'d hasher \<Rightarrow> nat \<Rightarrow> int \<Rightarrow> buffer \<Rightarrow> 'd option" where
  "dense_root hs d index v =
     (case dense_levels hs d
             (map (\<lambda>i. hash hs (if int i = index then v else zero64)) [0..<2 ^ d]) of
        [r] \<Rightarrow> Some r
      | _ \<Rightarrow> None)"

text \<open>
  The fold of a hash path as a verifier runs it: the running digest, seeded with the
  leaf hash, takes the side its index has (left when even) and the other side comes
  from the pair; the index is halved from one pair to the next.
\<close>

fun fold_hash_path :: "'d hasher \<Rightarrow> int \<Rightarrow> 'd \<Rightarrow> 'd option list list \<Rightarrow> 'd option" where
  "fold_hash_path hs index cur [] = Some cur"
| "fold_hash_path hs index cur ([Some l, Some r] # rest) =
     fold_hash_path hs (index div 2)
       (if index mod 2 = 0 then compress hs cur r else compress hs l cur) rest"
| "fold_hash_path hs index cur (pair # rest) = None"

text \<open>
  Every key of a map lies in \<open>[0, b)\<close>; every level \<open>j\<close> of a cache for depth \<open>D\<close> has its
  keys in \<open>[0, 2^(D-j))\<close>; a tree whose data blocks and cache are within the range of
  its depth.
\<close>

definition keys_below :: "int \<Rightarrow> 'v jsmap \<Rightarrow> bool" where
  "keys_below b m = list_all (\<lambda>e. 0 \<le> fst e \<and> fst e < b) m"

definition levels_in_range :: "nat \<Rightarrow> 'v jsmap list \<Rightarrow> bool" where
  "levels_in_range D levels =
     list_all (\<lambda>j. keys_below (2 ^ (D - j)) (levels ! j)) [0..<length levels]"

definition in_range :: "nat \<Rightarrow> 'd MerkleTree \<Rightarrow> bool" where
  "in_range D t =
     (keys_below (2 ^ D) (dataBlocks t) \<and>
      (\<exists>ls. hashes t = map Some ls \<and> levels_in_range D ls))"

section \<open>The zero hashes and the empty tree\<close>

lemma zeroHashes_loop_spec:
  "Z = map (Z_spec hs) [0..<i] \<Longrightarrow> 0 < i \<Longrightarrow>
   zeroHashes_loop hs i n Z = map (Z_spec hs) [0..<i + n]"
proof (induction n arbitrary: i Z)
  case 0
  then show ?case by simp
next
  case (Suc n)
  from Suc.prems obtain j where j: "i = Suc j" by (cases i) auto
  have step: "Z @ [compress hs (Z ! (i - 1)) (Z ! (i - 1))] = map (Z_spec hs) [0..<Suc i]"
    using Suc.prems j by (simp add: nth_append)
  show ?case
    using Suc.IH [OF step] by simp
qed

lemma zeroHashes_loop_fresh:
  "zeroHashes_loop hs (Suc 0) n [hash hs zero64] = map (Z_spec hs) [0..<Suc n]"
  using zeroHashes_loop_spec [of "[hash hs zero64]" hs 1 n] by simp

lemma zero_at_map:
  "zero_at (map f [0..<m]) (int i) = (if i < m then Some (f i) else None)"
  by (simp add: zero_at_def)

lemma levels_loop_empty:
  "0 < i \<Longrightarrow> levels_loop hs Z i n (replicate i []) = Inr (replicate (i + n) [])"
proof (induction n arbitrary: i)
  case 0
  then show ?case by simp
next
  case (Suc n)
  have "replicate i ([] :: 'a jsmap) @ [[]] = replicate (Suc i) []"
    by (simp add: replicate_append_same)
  with Suc.IH [of "Suc i"] Suc.prems show ?case by simp
qed

lemma generateTreeNodes_empty:
  "dataBlocks t = [] \<Longrightarrow>
   generateTreeNodes t =
     Inr (t\<lparr>hashes := replicate (Suc (nat (depth t))) (Some []),
            root := zero_at (zeroHashesByLevel t) (int (length (zeroHashesByLevel t)) - 1)\<rparr>)"
  using levels_loop_empty [of 1 "hasher t" "zeroHashesByLevel t" "nat (depth t)"]
  by (simp add: generateTreeNodes_def Map_size_def)

lemma constructor_fresh:
  assumes "1 \<le> d" "d \<le> 32"
  shows "MerkleTree_constructor store n d hs None =
     Inr \<lparr>db = store, name = n, depth = d, hasher = hs, root = Some (Z_spec hs (nat d)),
          dataBlocks = [], hashes = replicate (Suc (nat d)) (Some []),
          zeroHashesByLevel = map (Z_spec hs) [0..<Suc (nat d)]\<rparr>"
proof -
  have z: "generateZeroHashesByLevel
             \<lparr>db = store, name = n, depth = d, hasher = hs, root = None,
              dataBlocks = [], hashes = [], zeroHashesByLevel = []\<rparr> =
           \<lparr>db = store, name = n, depth = d, hasher = hs, root = Some (Z_spec hs (nat d)),
              dataBlocks = [], hashes = [], zeroHashesByLevel = map (Z_spec hs) [0..<Suc (nat d)]\<rparr>"
    using assms unfolding generateZeroHashesByLevel_def Let_def
    by (simp add: zeroHashes_loop_fresh zero_at_def nth_append)
  show ?thesis
    using assms unfolding MerkleTree_constructor_def Let_def z
    by (simp add: MAX_DEPTH_def generateTreeNodes_empty zero_at_def nth_append)
qed

lemma persist_loop_all_Some:
  "\<exists>data'. persist_loop i (map Some ls) data = Inr data'"
  by (induction ls arbitrary: i data) auto

lemma persistTree_all_Some:
  "hashes t = map Some ls \<Longrightarrow> \<exists>data. persistTree t = Inr (t\<lparr>db := (db t)(name t \<mapsto> data)\<rparr>)"
  using persist_loop_all_Some [of 0 ls "[]"] by (auto simp: persistTree_def)

lemma indexOfParentNode_div: "indexOfParentNode index = index div 2"
  unfolding indexOfParentNode_def Math_round_half_def by presburger

lemma double_round_exact: "\<bar>x\<bar> \<le> 2 ^ 53 \<Longrightarrow> double_round x = x"
  by (simp add: double_round_def)

lemma indexOfSibling_safe:
  assumes "safe_integer index"
  shows "indexOfSibling index = (if index mod 2 = 0 then index + 1 else index - 1)"
proof -
  from assms have "\<bar>index + 1\<bar> \<le> 2 ^ 53" "\<bar>index - 1\<bar> \<le> 2 ^ 53"
    by (simp_all add: safe_integer_def abs_le_iff)
  then show ?thesis
    by (simp add: indexOfSibling_def double_round_exact)
qed

lemma safe_integer_half: "safe_integer index \<Longrightarrow> safe_integer (index div 2)"
  unfolding safe_integer_def by simp linarith

lemma path_pair_ordered:
  assumes "safe_integer index"
  shows "path_pair level z index =
     [if Map_has (2 * (index div 2)) level then Map_get (2 * (index div 2)) level else z,
      if Map_has (2 * (index div 2) + 1) level then Map_get (2 * (index div 2) + 1) level else z]"
proof (cases "index mod 2 = 0")
  case True
  then have e: "2 * (index div 2) = index" by presburger
  show ?thesis
    using True unfolding e
    by (simp add: path_pair_def indexOfSibling_safe [OF assms] array_put_def Let_def)
next
  case False
  then have e: "2 * (index div 2) = index - 1" by presburger
  show ?thesis
    using False unfolding e
    by (simp add: path_pair_def indexOfSibling_safe [OF assms] array_put_def Let_def)
qed

lemma hashPath_loop_length:
  "hashPath_loop t i n index acc = Inr p \<Longrightarrow> length p = length acc + n"
proof (induction n arbitrary: i index acc)
  case 0
  then show ?case by auto
next
  case (Suc n)
  from Suc.prems obtain level where
    "hashPath_loop t (Suc i) n (indexOfParentNode index)
       (acc @ [path_pair level (zero_at (zeroHashesByLevel t) (int i)) index]) = Inr p"
    by (auto split: option.splits)
  from Suc.IH [OF this] show ?case by simp
qed

lemma hashPath_loop_shape:
  "hashPath_loop t i n index acc = Inr p \<Longrightarrow> safe_integer index \<Longrightarrow>
   length p = length acc + n \<and> take (length acc) p = acc \<and>
   (\<forall>j<n. p ! (length acc + j) =
      [node_digest t (i + j) (2 * (index div 2 ^ Suc j)),
       node_digest t (i + j) (2 * (index div 2 ^ Suc j) + 1)])"
proof (induction n arbitrary: i index acc)
  case 0
  then show ?case by auto
next
  case (Suc n)
  from Suc.prems(1) obtain level where
    lv: "array_get (hashes t) (int i) = Some level" and
    rec: "hashPath_loop t (Suc i) n (index div 2)
            (acc @ [path_pair level (zero_at (zeroHashesByLevel t) (int i)) index]) = Inr p"
    by (auto simp: indexOfParentNode_div split: option.splits)
  let ?pp = "path_pair level (zero_at (zeroHashesByLevel t) (int i)) index"
  from Suc.IH [OF rec safe_integer_half [OF Suc.prems(2)]] have
    len: "length p = length acc + Suc n" and
    tk: "take (Suc (length acc)) p = acc @ [?pp]" and
    rest: "\<forall>j<n. p ! (Suc (length acc) + j) =
      [node_digest t (Suc i + j) (2 * (index div 2 div 2 ^ Suc j)),
       node_digest t (Suc i + j) (2 * (index div 2 div 2 ^ Suc j) + 1)]"
    by auto
  have tk': "take (length acc) p = acc"
  proof -
    have "take (length acc) (take (Suc (length acc)) p) = take (length acc) (acc @ [?pp])"
      by (simp only: tk)
    then show ?thesis by simp
  qed
  have first: "p ! length acc = ?pp"
  proof -
    have "take (Suc (length acc)) p ! length acc = (acc @ [?pp]) ! length acc"
      by (simp only: tk)
    then show ?thesis by simp
  qed
  have dd: "index div 2 div 2 ^ Suc j = index div 2 ^ Suc (Suc j)" for j
  proof -
    have "index div (2 * 2 ^ Suc j) = index div 2 div 2 ^ Suc j"
      by (rule zdiv_zmult2_eq) simp
    then show ?thesis by (simp only: power_Suc)
  qed
  have "p ! (length acc + j) =
      [node_digest t (i + j) (2 * (index div 2 ^ Suc j)),
       node_digest t (i + j) (2 * (index div 2 ^ Suc j) + 1)]" if "j < Suc n" for j
  proof (cases j)
    case 0
    then show ?thesis
      using first lv by (simp add: path_pair_ordered [OF Suc.prems(2)] node_digest_def)
  next
    case (Suc j')
    with that have "j' < n" by simp
    with rest have "p ! (Suc (length acc) + j') =
      [node_digest t (Suc i + j') (2 * (index div 2 div 2 ^ Suc j')),
       node_digest t (Suc i + j') (2 * (index div 2 div 2 ^ Suc j') + 1)]" by blast
    then show ?thesis unfolding dd Suc by simp
  qed
  with len tk' show ?case by blast
qed

lemma hashPath_loop_cong:
  "zeroHashesByLevel t' = zeroHashesByLevel t \<Longrightarrow>
   (\<forall>j<n. array_get (hashes t') (int (i + j)) = array_get (hashes t) (int (i + j))) \<Longrightarrow>
   hashPath_loop t' i n index acc = hashPath_loop t i n index acc"
proof (induction n arbitrary: i index acc)
  case 0
  then show ?case by simp
next
  case (Suc n)
  from Suc.prems(2) have a: "array_get (hashes t') (int i) = array_get (hashes t) (int i)"
    by force
  have b:
    "\<forall>j<n. array_get (hashes t') (int (Suc i + j)) = array_get (hashes t) (int (Suc i + j))"
  proof (intro allI impI)
    fix j assume "j < n"
    then have "Suc j < Suc n" by simp
    with Suc.prems(2) have
      "array_get (hashes t') (int (i + Suc j)) = array_get (hashes t) (int (i + Suc j))"
      by blast
    then show "array_get (hashes t') (int (Suc i + j)) = array_get (hashes t) (int (Suc i + j))"
      by simp
  qed
  show ?case
    using Suc.IH [OF Suc.prems(1) b] a Suc.prems(1) by (simp split: option.splits)
qed

lemma hashPath_loop_Inr:
  "(\<forall>j<n. array_get (hashes t) (int (i + j)) \<noteq> None) \<Longrightarrow>
   \<exists>p. hashPath_loop t i n index acc = Inr p"
proof (induction n arbitrary: i index acc)
  case 0
  then show ?case by simp
next
  case (Suc n)
  from Suc.prems obtain level where a: "array_get (hashes t) (int i) = Some level"
    by force
  have b: "\<forall>j<n. array_get (hashes t) (int (Suc i + j)) \<noteq> None"
  proof (intro allI impI)
    fix j assume "j < n"
    then have "Suc j < Suc n" by simp
    with Suc.prems have "array_get (hashes t) (int (i + Suc j)) \<noteq> None"
      by blast
    then show "array_get (hashes t) (int (Suc i + j)) \<noteq> None"
      by simp
  qed
  show ?case
    using Suc.IH [OF b] a by simp
qed

lemma Map_has_get: "Map_has k m \<Longrightarrow> Map_get k m \<noteq> None"
  by (simp add: Map_has_def Map_get_def)

lemma level_loop_Inr:
  "z \<noteq> None \<Longrightarrow> \<exists>level'. level_loop hs z before rest processed level = Inr level'"
proof (induction rest arbitrary: processed level)
  case Nil
  then show ?case by simp
next
  case (Cons e rest)
  obtain index h where e: "e = (index, h)" by (cases e)
  show ?case
    using Cons.IH [OF Cons.prems] Cons.prems Map_has_get [of "indexOfSibling index" before]
    unfolding e by (auto simp: Let_def split: option.splits)
qed

lemma levels_loop_Inr:
  "0 < i \<Longrightarrow> i + n \<le> Suc (length Z) \<Longrightarrow>
   \<exists>ls. levels_loop hs Z i n levels = Inr (levels @ ls) \<and> length ls = n"
proof (induction n arbitrary: i levels)
  case 0
  then show ?case by simp
next
  case (Suc n)
  from Suc.prems have z: "zero_at Z (int i - 1) \<noteq> None"
    by (auto simp: zero_at_def)
  from level_loop_Inr [OF z] obtain level where
    lv: "level_loop hs (zero_at Z (int i - 1)) (levels ! (i - 1)) (levels ! (i - 1)) [] [] = Inr level"
    by blast
  from Suc.prems have "0 < Suc i" "Suc i + n \<le> Suc (length Z)" by auto
  from Suc.IH [OF this, of "levels @ [level]"] obtain ls where
    "levels_loop hs Z (Suc i) n (levels @ [level]) = Inr ((levels @ [level]) @ ls)" "length ls = n"
    by blast
  then have "levels_loop hs Z i (Suc n) levels = Inr (levels @ (level # ls)) \<and> length (level # ls) = Suc n"
    using lv by simp
  then show ?case by blast
qed

lemma generateTreeNodes_Inr:
  assumes "nat (depth t) \<le> length (zeroHashesByLevel t)"
  shows "\<exists>ls r. generateTreeNodes t = Inr (t\<lparr>hashes := map Some ls, root := r\<rparr>) \<and>
            length ls = Suc (nat (depth t))"
proof -
  from assms have "Suc 0 + nat (depth t) \<le> Suc (length (zeroHashesByLevel t))" by simp
  from levels_loop_Inr [OF _ this, of "hasher t" "[leaf_loop (hasher t) (dataBlocks t) []]"]
  obtain ls where
    "levels_loop (hasher t) (zeroHashesByLevel t) (Suc 0) (nat (depth t))
       [leaf_loop (hasher t) (dataBlocks t) []] = Inr ([leaf_loop (hasher t) (dataBlocks t) []] @ ls)"
    "length ls = nat (depth t)"
    by auto
  then have
    "generateTreeNodes t =
       Inr (t\<lparr>hashes := map Some (leaf_loop (hasher t) (dataBlocks t) [] # ls),
              root := (if Map_size (last (leaf_loop (hasher t) (dataBlocks t) [] # ls)) = 0
                       then zero_at (zeroHashesByLevel t) (int (length (zeroHashesByLevel t)) - 1)
                       else Map_get 0 (last (leaf_loop (hasher t) (dataBlocks t) [] # ls)))\<rparr>)"
    "length (leaf_loop (hasher t) (dataBlocks t) [] # ls) = Suc (nat (depth t))"
    unfolding generateTreeNodes_def by simp_all
  then show ?thesis by blast
qed

lemma updateElement_well_formed:
  assumes "well_formed d hs t"
  shows "\<exists>t'. updateElement index v t = Inr t' \<and> well_formed d hs t'"
proof -
  let ?t = "t\<lparr>dataBlocks := Map_set index v (dataBlocks t)\<rparr>"
  from assms have "nat (depth ?t) \<le> length (zeroHashesByLevel ?t)"
    by (simp add: well_formed_def)
  from generateTreeNodes_Inr [OF this] obtain ls r where
    g: "generateTreeNodes ?t = Inr (?t\<lparr>hashes := map Some ls, root := r\<rparr>)" and
    l: "length ls = Suc (nat (depth ?t))"
    by blast
  let ?t' = "?t\<lparr>hashes := map Some ls, root := r\<rparr>"
  have "hashes ?t' = map Some ls" by simp
  from persistTree_all_Some [OF this] obtain data where
    p: "persistTree ?t' = Inr (?t'\<lparr>db := (db ?t')(name ?t' \<mapsto> data)\<rparr>)"
    by blast
  have "well_formed d hs (?t'\<lparr>db := (db ?t')(name ?t' \<mapsto> data)\<rparr>)"
    using assms l by (auto simp: well_formed_def)
  then show ?thesis
    unfolding updateElement_def g using p by simp
qed

lemma updateElements_well_formed:
  "well_formed d hs t \<Longrightarrow> \<exists>t'. updateElements us t = Inr t' \<and> well_formed d hs t'"
proof (induction us arbitrary: t)
  case Nil
  then show ?case by simp
next
  case (Cons u us)
  obtain index v where u: "u = (index, v)" by (cases u)
  from updateElement_well_formed [OF Cons.prems] obtain t1 where
    "updateElement index v t = Inr t1" "well_formed d hs t1" by blast
  with Cons.IH [of t1] show ?case unfolding u by simp
qed

lemma new_fresh:
  assumes "1 \<le> d" "d \<le> 32" "store n = None"
  shows "\<exists>data. MerkleTree_new store n d hs =
     Inr \<lparr>db = store(n \<mapsto> data), name = n, depth = d, hasher = hs,
          root = Some (Z_spec hs (nat d)),
          dataBlocks = [], hashes = replicate (Suc (nat d)) (Some []),
          zeroHashesByLevel = map (Z_spec hs) [0..<Suc (nat d)]\<rparr>"
proof -
  let ?t = "\<lparr>db = store, name = n, depth = d, hasher = hs, root = Some (Z_spec hs (nat d)),
          dataBlocks = [], hashes = replicate (Suc (nat d)) (Some []),
          zeroHashesByLevel = map (Z_spec hs) [0..<Suc (nat d)]\<rparr>"
  have "hashes ?t = map Some (replicate (Suc (nat d)) [])" by simp
  from persistTree_all_Some [OF this] obtain data where
    "persistTree ?t = Inr (?t\<lparr>db := (db ?t)(name ?t \<mapsto> data)\<rparr>)" by blast
  then show ?thesis
    unfolding MerkleTree_new_def assms(3) constructor_fresh [OF assms(1,2)] by auto
qed

lemma level_loop_error:
  "level_loop hs z before rest processed level = Inl e \<Longrightarrow> e = TypeError"
proof (induction rest arbitrary: processed level)
  case Nil
  then show ?case by simp
next
  case (Cons a rest)
  obtain index h where a: "a = (index, h)" by (cases a)
  from Cons.prems show ?case
    unfolding a using Cons.IH by (auto simp: Let_def split: if_splits option.splits)
qed

lemma levels_loop_error:
  "levels_loop hs Z i n levels = Inl e \<Longrightarrow> e = TypeError"
proof (induction n arbitrary: i levels)
  case 0
  then show ?case by simp
next
  case (Suc n)
  then show ?case
    by (auto split: sum.splits dest: level_loop_error)
qed

lemma generateTreeNodes_error: "generateTreeNodes t = Inl e \<Longrightarrow> e = TypeError"
  by (auto simp: generateTreeNodes_def split: sum.splits dest: levels_loop_error)

lemma restorePersistedTree_error: "restorePersistedTree data t = Inl e \<Longrightarrow> e = TypeError"
  by (auto simp: restorePersistedTree_def split: prod.splits option.splits)

section \<open>Construction\<close>

text \<open>
  Claim C9. For every depth argument outside \<open>[1, 32]\<close> (zero and the negative numbers
  included) the constructor throws \<^verbatim>\<open>Error('Bad depth')\<close> and returns no tree,
  whatever the other arguments are. For every depth in \<open>[1, 32]\<close> it does not throw
  this error, and without persisted data it returns a tree.
\<close>

theorem constructor_depth_check:
  "(\<not> (1 \<le> d \<and> d \<le> 32) \<longrightarrow> MerkleTree_constructor store n d hs data = Inl Bad_depth) \<and>
   (1 \<le> d \<and> d \<le> 32 \<longrightarrow>
      MerkleTree_constructor store n d hs data \<noteq> Inl Bad_depth \<and>
      (\<exists>t. MerkleTree_constructor store n d hs None = Inr t))"
proof (intro conjI impI)
  assume "\<not> (1 \<le> d \<and> d \<le> 32)"
  then show "MerkleTree_constructor store n d hs data = Inl Bad_depth"
    by (simp add: MerkleTree_constructor_def MAX_DEPTH_def)
next
  assume r: "1 \<le> d \<and> d \<le> 32"
  show "MerkleTree_constructor store n d hs data \<noteq> Inl Bad_depth"
  proof
    assume "MerkleTree_constructor store n d hs data = Inl Bad_depth"
    with r have "Bad_depth = TypeError"
      by (auto simp: MerkleTree_constructor_def MAX_DEPTH_def Let_def split: option.splits
          dest: generateTreeNodes_error restorePersistedTree_error)
    then show False by simp
  qed
  from r show "\<exists>t. MerkleTree_constructor store n d hs None = Inr t"
    by (simp add: constructor_fresh)
qed

theorem constructor_depth_check_witness:
  "MerkleTree_constructor empty_db ''tree'' 0 symbolic_hasher None = Inl Bad_depth \<and>
   MerkleTree_constructor empty_db ''tree'' (- 1) symbolic_hasher None = Inl Bad_depth \<and>
   MerkleTree_constructor empty_db ''tree'' 33 symbolic_hasher None = Inl Bad_depth \<and>
   MerkleTree_constructor empty_db ''tree'' 32 symbolic_hasher None \<noteq> Inl Bad_depth \<and>
   (\<exists>t. MerkleTree_constructor empty_db ''tree'' 1 symbolic_hasher None = Inr t)"
  using constructor_depth_check [of 0 empty_db "''tree''" symbolic_hasher None]
    constructor_depth_check [of "- 1" empty_db "''tree''" symbolic_hasher None]
    constructor_depth_check [of 33 empty_db "''tree''" symbolic_hasher None]
    constructor_depth_check [of 32 empty_db "''tree''" symbolic_hasher None]
    constructor_depth_check [of 1 empty_db "''tree''" symbolic_hasher None]
  by simp

text \<open>
  Claim C6. For every depth \<open>d\<close> in \<open>[1, 32]\<close>, a tree opened by \<^verbatim>\<open>MerkleTree.new\<close> on a
  store without data for its name has no data blocks, its zero-hash table is the
  recurrence \<open>Z[0] = hash(zero64)\<close>, \<open>Z[i] = compress(Z[i-1], Z[i-1])\<close>, and
  \<^verbatim>\<open>getRoot()\<close> is \<open>Z[d]\<close>.
\<close>

theorem empty_tree_root:
  assumes "1 \<le> d" "d \<le> 32" "store n = None"
  shows "\<exists>t. MerkleTree_new store n d hs = Inr t \<and> dataBlocks t = [] \<and>
              zeroHashesByLevel t = map (Z_spec hs) [0..<Suc (nat d)] \<and>
              getRoot t = Some (Z_spec hs (nat d))"
proof -
  from new_fresh [of d store n hs] assms obtain data where
    "MerkleTree_new store n d hs =
     Inr \<lparr>db = store(n \<mapsto> data), name = n, depth = d, hasher = hs,
          root = Some (Z_spec hs (nat d)),
          dataBlocks = [], hashes = replicate (Suc (nat d)) (Some []),
          zeroHashesByLevel = map (Z_spec hs) [0..<Suc (nat d)]\<rparr>"
    by blast
  then show ?thesis by (simp add: getRoot_def)
qed

theorem empty_tree_root_witness:
  "\<exists>t. MerkleTree_new empty_db ''tree'' 2 symbolic_hasher = Inr t \<and>
       getRoot t =
         Some (Compress (Compress (Hash zero64) (Hash zero64))
                        (Compress (Hash zero64) (Hash zero64)))"
proof -
  have "empty_db ''tree'' = None" by (simp add: empty_db_def)
  with empty_tree_root [of 2 empty_db "''tree''" symbolic_hasher]
  show ?thesis by (auto simp add: symbolic_hasher_def eval_nat_numeral)
qed

lemma array_get_update_other:
  "j \<noteq> m \<Longrightarrow> array_get (xs[m := v]) (int j) = array_get xs (int j)"
  by (simp add: array_get_def)

section \<open>Hash paths\<close>

text \<open>
  Claim C7. The source documents \<^verbatim>\<open>hashes\<close> as an array of \<open>depth + 1\<close> levels. On
  every tree whose levels below \<open>depth\<close> are there, and for every index,
  \<^verbatim>\<open>getHashPath(index)\<close> returns exactly \<open>depth\<close> entries. For every index of magnitude
  below \<open>2^53\<close>, which includes every index in \<open>[0, 2^depth)\<close> of a tree the constructor
  accepts, the entry of level \<open>i\<close> is the pair of the digests of the two siblings among
  which the walked index \<open>\<lfloor>index / 2^i\<rfloor>\<close> lies, the even-indexed one on the left and
  the odd-indexed one on the right. The walked index is halved, rounding down, from
  one level to the next; and the level of the root is never read: the path stays
  the same when level \<open>depth\<close> of the cache and the stored root are replaced.
\<close>

theorem getHashPath_pairs:
  assumes "\<forall>i<nat (depth t). array_get (hashes t) (int i) \<noteq> None"
  shows "\<exists>p. getHashPath t index = Inr p \<and> length p = nat (depth t) \<and>
         (safe_integer index \<longrightarrow>
            (\<forall>i<nat (depth t). p ! i =
               [node_digest t i (2 * (index div 2 ^ Suc i)),
                node_digest t i (2 * (index div 2 ^ Suc i) + 1)])) \<and>
         indexOfParentNode index = index div 2 \<and>
         getHashPath (t\<lparr>hashes := (hashes t)[nat (depth t) := top_level], root := r\<rparr>) index
           = Inr p"
proof -
  from assms have "\<forall>j<nat (depth t). array_get (hashes t) (int (0 + j)) \<noteq> None"
    by simp
  from hashPath_loop_Inr [OF this, of index "[]"] obtain p where
    loop: "hashPath_loop t 0 (nat (depth t)) index [] = Inr p"
    by blast
  from hashPath_loop_length [OF loop] have "length p = nat (depth t)"
    by simp
  moreover have
    "\<forall>i<nat (depth t). p ! i =
        [node_digest t i (2 * (index div 2 ^ Suc i)),
         node_digest t i (2 * (index div 2 ^ Suc i) + 1)]"
    if "safe_integer index"
    using hashPath_loop_shape [OF loop that] by simp
  moreover
  let ?t' = "t\<lparr>hashes := (hashes t)[nat (depth t) := top_level], root := r\<rparr>"
  have "hashPath_loop ?t' 0 (nat (depth t)) index [] = hashPath_loop t 0 (nat (depth t)) index []"
    by (rule hashPath_loop_cong) (simp_all add: array_get_update_other)
  with loop have "getHashPath ?t' index = Inr p"
    by (simp add: getHashPath_def)
  ultimately show ?thesis
    using loop by (simp add: indexOfParentNode_div getHashPath_def)
qed

theorem getHashPath_pairs_witness:
  "\<exists>t p. fresh_then 2 symbolic_hasher [(2, ones64)] = Inr t \<and>
     getHashPath t 2 = Inr p \<and> length p = 2 \<and>
     p ! 0 = [node_digest t 0 2, node_digest t 0 3] \<and>
     p ! 1 = [node_digest t 1 0, node_digest t 1 1] \<and>
     p = [[Some (Hash ones64), Some (Hash zero64)],
          [Some (Compress (Hash zero64) (Hash zero64)),
           Some (Compress (Hash ones64) (Hash zero64))]]"
proof -
  let ?run = "fresh_then 2 symbolic_hasher [(2, ones64)]"
  let ?p = "[[Some (Hash ones64), Some (Hash zero64)],
          [Some (Compress (Hash zero64) (Hash zero64)),
           Some (Compress (Hash ones64) (Hash zero64))]]"
  have "\<not> isl ?run" by code_simp
  then obtain t where t: "?run = Inr t" by (cases ?run) auto
  have "map_sum id (\<lambda>t. (depth t,
            list_all (\<lambda>i. array_get (hashes t) (int i) \<noteq> None) [0..<nat (depth t)])) ?run =
        Inr (2, True)"
    by code_simp
  with t have d: "depth t = 2" and
    levels: "\<forall>i<nat (depth t). array_get (hashes t) (int i) \<noteq> None"
    by (simp_all add: list_all_iff)
  have "map_sum id (\<lambda>t. getHashPath t 2) ?run = Inr (Inr ?p)"
    by code_simp
  with t have p: "getHashPath t 2 = Inr ?p" by simp
  have safe: "safe_integer 2" by (simp add: safe_integer_def)
  from getHashPath_pairs [OF levels, where index = 2 and top_level = None and r = None] p safe
  have a: "\<forall>i<nat (depth t). ?p ! i =
            [node_digest t i (2 * (2 div 2 ^ Suc i)),
             node_digest t i (2 * (2 div 2 ^ Suc i) + 1)]"
    by auto
  from a [rule_format, of 0] d have "?p ! 0 = [node_digest t 0 2, node_digest t 0 3]"
    by simp
  moreover from a [rule_format, of 1] d have "?p ! 1 = [node_digest t 1 0, node_digest t 1 1]"
    by simp
  ultimately show ?thesis using t p by simp
qed

section \<open>Restoring a persisted tree\<close>

lemma restore_loop_depth:
  "restore_loop data levels d = (levels', d') \<Longrightarrow> d' = d + int (length data)"
proof (induction data arbitrary: levels d)
  case Nil
  then show ?case by simp
next
  case (Cons a data)
  obtain key obj where a: "a = (key, obj)" by (cases a)
  from Cons.prems Cons.IH show ?case unfolding a by fastforce
qed

lemma restorePersistedTree_depth:
  "restorePersistedTree data t = Inr t' \<Longrightarrow> depth t' = int (length data) - 1"
  by (auto simp: restorePersistedTree_def split: prod.splits option.splits
      dest: restore_loop_depth)

lemma generateTreeNodes_depth: "generateTreeNodes t = Inr t' \<Longrightarrow> depth t' = depth t"
  by (auto simp: generateTreeNodes_def split: sum.splits)

lemma persistTree_depth: "persistTree t = Inr t' \<Longrightarrow> depth t' = depth t"
  by (auto simp: persistTree_def split: sum.splits)

lemma updateElement_depth: "updateElement index v t = Inr t' \<Longrightarrow> depth t' = depth t"
  by (auto simp: updateElement_def split: sum.splits
      dest!: generateTreeNodes_depth persistTree_depth)

lemma array_put_last:
  "(xs \<noteq> [] \<Longrightarrow> last xs \<noteq> None) \<Longrightarrow>
   array_put xs i (Some m) \<noteq> [] \<and> last (array_put xs i (Some m)) \<noteq> None"
  by (cases "xs = []") (auto simp: array_put_def last_list_update)

lemma restore_loop_last:
  "restore_loop data levels d = (levels', d') \<Longrightarrow> (levels \<noteq> [] \<Longrightarrow> last levels \<noteq> None) \<Longrightarrow>
   data \<noteq> [] \<or> levels \<noteq> [] \<Longrightarrow> levels' \<noteq> [] \<and> last levels' \<noteq> None"
proof (induction data arbitrary: levels d)
  case Nil
  then show ?case by simp
next
  case (Cons a data)
  obtain key obj where a: "a = (key, obj)" by (cases a)
  let ?next = "array_put levels key (Some (restore_level obj []))"
  from Cons.prems(1) have rec: "restore_loop data ?next (d + 1) = (levels', d')"
    by (simp add: a)
  from array_put_last [of levels key "restore_level obj []"] Cons.prems(2)
  have "?next \<noteq> []" "last ?next \<noteq> None" by blast+
  with Cons.IH [OF rec] show ?case by blast
qed

lemma array_get_last:
  "xs \<noteq> [] \<Longrightarrow> array_get xs (int (length xs) - 1) = last xs"
  by (cases xs rule: rev_cases) (simp_all add: array_get_def nth_append)

lemma restorePersistedTree_Inr:
  assumes "data \<noteq> []"
  shows "\<exists>t'. restorePersistedTree data t = Inr t'"
proof -
  obtain levels' d' where r: "restore_loop data [] 0 = (levels', d')"
    by (cases "restore_loop data [] 0")
  from restore_loop_last [OF r] assms have "levels' \<noteq> []" "last levels' \<noteq> None"
    by simp_all
  then obtain topLevel where "array_get levels' (int (length levels') - 1) = Some topLevel"
    by (auto simp: array_get_last)
  with r show ?thesis by (simp add: restorePersistedTree_def)
qed

text \<open>A document without a top-level key leaves \<^verbatim>\<open>hashes\<close> empty, and reading the root throws.\<close>

lemma restorePersistedTree_Nil: "restorePersistedTree [] t = Inl TypeError"
  by (simp add: restorePersistedTree_def array_get_def)

lemma restorePersistedTree_zeroHashes:
  "restorePersistedTree data t = Inr t' \<Longrightarrow> zeroHashesByLevel t' = zeroHashesByLevel t"
  by (auto simp: restorePersistedTree_def split: prod.splits option.splits)

text \<open>
  Claim C8. When the constructor, called with a depth in \<open>[1, 32]\<close>, restores a tree
  from a persisted document with at least one top-level key, it returns a tree whose
  depth is the number of top-level keys of the document minus one, whatever depth
  the caller passed, and the operations that follow use it: \<^verbatim>\<open>getHashPath\<close> returns
  that many pairs and \<^verbatim>\<open>updateElement\<close> keeps that depth.
\<close>

theorem restored_depth:
  assumes "1 \<le> d" "d \<le> 32" "data \<noteq> []"
  shows "\<exists>t. MerkleTree_constructor store n d hs (Some data) = Inr t \<and>
         depth t = int (length data) - 1 \<and>
         (\<forall>index p. getHashPath t index = Inr p \<longrightarrow> int (length p) = int (length data) - 1) \<and>
         (\<forall>index v t'. updateElement index v t = Inr t' \<longrightarrow>
            depth t' = int (length data) - 1)"
proof -
  let ?t0 = "generateZeroHashesByLevel
               \<lparr>db = store, name = n, depth = d, hasher = hs, root = None,
                dataBlocks = [], hashes = [], zeroHashesByLevel = []\<rparr>"
  from restorePersistedTree_Inr [OF assms(3), of ?t0] obtain t where
    r: "restorePersistedTree data ?t0 = Inr t" by blast
  from assms(1,2) r have c: "MerkleTree_constructor store n d hs (Some data) = Inr t"
    by (simp add: MerkleTree_constructor_def MAX_DEPTH_def Let_def)
  from r have d: "depth t = int (length data) - 1"
    by (rule restorePersistedTree_depth)
  from assms(3) have nn: "0 \<le> depth t" unfolding d by (cases data) simp_all
  have "int (length p) = int (length data) - 1" if "getHashPath t index = Inr p" for index p
    using hashPath_loop_length [of t 0 "nat (depth t)" index "[]" p] that nn d
    by (simp add: getHashPath_def)
  moreover have "depth t' = int (length data) - 1"
    if "updateElement index v t = Inr t'" for index v t'
    using updateElement_depth [OF that] d by simp
  ultimately show ?thesis using c d by blast
qed

theorem restored_depth_witness:
  "\<exists>t1 data t. fresh_then 1 symbolic_hasher [(1, ones64)] = Inr t1 \<and>
     db t1 ''tree'' = Some data \<and> length data = 2 \<and>
     MerkleTree_constructor (db t1) ''tree'' 5 symbolic_hasher (Some data) = Inr t \<and>
     depth t = 1"
proof -
  let ?run = "fresh_then 1 symbolic_hasher [(1, ones64)]"
  let ?data = "[(0, [(1, Hash ones64)]), (1, [(0, Compress (Hash ones64) (Hash zero64))])]"
  have "\<not> isl ?run" by code_simp
  then obtain t1 where t1: "?run = Inr t1" by (cases ?run) auto
  have "map_sum id (\<lambda>t. db t ''tree'') ?run = Inr (Some ?data)"
    by code_simp
  with t1 have data: "db t1 ''tree'' = Some ?data" by simp
  from restored_depth [of 5 ?data "db t1" "''tree''" symbolic_hasher] obtain t where
    "MerkleTree_constructor (db t1) ''tree'' 5 symbolic_hasher (Some ?data) = Inr t"
    "depth t = int (length ?data) - 1"
    by auto
  with t1 data show ?thesis by simp
qed

text \<open>
  The table of zero hashes is not rebuilt on restore: it keeps the length that the
  depth passed to the constructor gave it.
\<close>

lemma restored_zero_hashes:
  assumes "MerkleTree_constructor store n d hs (Some data) = Inr t"
  shows "zeroHashesByLevel t = map (Z_spec hs) [0..<Suc (nat d)]"
proof -
  let ?t0 = "generateZeroHashesByLevel
               \<lparr>db = store, name = n, depth = d, hasher = hs, root = None,
                dataBlocks = [], hashes = [], zeroHashesByLevel = []\<rparr>"
  from assms have "restorePersistedTree data ?t0 = Inr t"
    by (simp add: MerkleTree_constructor_def Let_def split: if_splits)
  from restorePersistedTree_zeroHashes [OF this] show ?thesis
    by (simp add: generateZeroHashesByLevel_def Let_def zeroHashes_loop_fresh)
qed

section \<open>Hash paths of a tree built by updates\<close>

lemma array_get_map_Some:
  "i < length ls \<Longrightarrow> array_get (map Some ls) (int i) = Some (ls ! i)"
  by (simp add: array_get_def)

lemma node_digest_well_formed:
  assumes "hashes t = map Some ls" "i < length ls"
    "zeroHashesByLevel t = map (Z_spec hs) [0..<m]" "i < m"
  shows "node_digest t i k = Some (cached_or_zero hs (ls ! i) i k)"
  using assms
  by (auto simp: node_digest_def array_get_map_Some cached_or_zero_def zero_at_map
      Map_has_def Map_get_def split: option.splits)

lemma keys_below_Map_set:
  "keys_below b m \<Longrightarrow> 0 \<le> k \<Longrightarrow> k < b \<Longrightarrow> keys_below b (Map_set k v m)"
  by (induction m) (auto simp: keys_below_def)

lemma keys_below_leaf_loop:
  "keys_below b blocks \<Longrightarrow> keys_below b acc \<Longrightarrow> keys_below b (leaf_loop hs blocks acc)"
proof (induction blocks arbitrary: acc)
  case Nil
  then show ?case by simp
next
  case (Cons e blocks)
  obtain index buf where e: "e = (index, buf)" by (cases e)
  from Cons.prems have "keys_below b blocks" "0 \<le> index" "index < b"
    by (simp_all add: keys_below_def e)
  with Cons.IH [of "Map_set index (hash hs buf) acc"] Cons.prems(2)
  show ?case unfolding e by (simp add: keys_below_Map_set)
qed

lemma keys_below_level_loop:
  "level_loop hs z before rest processed acc = Inr level \<Longrightarrow>
   keys_below (2 * b) rest \<Longrightarrow> keys_below b acc \<Longrightarrow> keys_below b level"
proof (induction rest arbitrary: processed acc)
  case Nil
  then show ?case by simp
next
  case (Cons e rest)
  obtain index h where e: "e = (index, h)" by (cases e)
  from Cons.prems(2) have r: "keys_below (2 * b) rest" and i: "0 \<le> index" "index < 2 * b"
    by (simp_all add: keys_below_def e)
  from i have p: "0 \<le> indexOfParentNode index" "indexOfParentNode index < b"
    by (simp_all add: indexOfParentNode_div)
  from Cons.prems(1) show ?case
    unfolding e using Cons.IH [OF _ r] Cons.prems(3) p
    by (auto simp: Let_def keys_below_Map_set split: if_splits option.splits)
qed

lemma levels_in_range_append:
  "levels_in_range D levels \<Longrightarrow> keys_below (2 ^ (D - length levels)) level \<Longrightarrow>
   levels_in_range D (levels @ [level])"
  by (auto simp: levels_in_range_def list_all_iff nth_append)

lemma levels_in_range_nth:
  "levels_in_range D levels \<Longrightarrow> j < length levels \<Longrightarrow> keys_below (2 ^ (D - j)) (levels ! j)"
  by (auto simp: levels_in_range_def list_all_iff)

lemma levels_loop_in_range:
  "levels_loop hs Z i n levels = Inr ls \<Longrightarrow> length levels = i \<Longrightarrow> 0 < i \<Longrightarrow>
   i + n \<le> Suc D \<Longrightarrow> levels_in_range D levels \<Longrightarrow> levels_in_range D ls"
proof (induction n arbitrary: i levels)
  case 0
  then show ?case by simp
next
  case (Suc n)
  from Suc.prems(1) obtain level where
    lv: "level_loop hs (zero_at Z (int i - 1)) (levels ! (i - 1)) (levels ! (i - 1)) [] [] = Inr level"
    and rec: "levels_loop hs Z (Suc i) n (levels @ [level]) = Inr ls"
    by (auto split: sum.splits)
  from Suc.prems have "i - 1 < length levels" by simp
  from levels_in_range_nth [OF Suc.prems(5) this]
  have k: "keys_below (2 ^ (D - (i - 1))) (levels ! (i - 1))" .
  from Suc.prems have e: "D - (i - 1) = Suc (D - i)" by simp
  from k have "keys_below (2 * 2 ^ (D - i)) (levels ! (i - 1))"
    by (simp only: e power_Suc)
  from keys_below_level_loop [OF lv this] have "keys_below (2 ^ (D - i)) level"
    by (simp add: keys_below_def)
  with Suc.prems have "levels_in_range D (levels @ [level])"
    by (simp add: levels_in_range_append)
  from Suc.IH [OF rec _ _ _ this] Suc.prems show ?case by simp
qed



lemma generateTreeNodes_in_range:
  assumes "generateTreeNodes t = Inr t'" "keys_below (2 ^ nat (depth t)) (dataBlocks t)"
  shows "in_range (nat (depth t)) t'"
proof -
  from assms(1) obtain ls where
    ls: "levels_loop (hasher t) (zeroHashesByLevel t) 1 (nat (depth t))
           [leaf_loop (hasher t) (dataBlocks t) []] = Inr ls" and
    h: "hashes t' = map Some ls" and b: "dataBlocks t' = dataBlocks t"
    by (auto simp: generateTreeNodes_def split: sum.splits)
  have "keys_below (2 ^ nat (depth t)) (leaf_loop (hasher t) (dataBlocks t) [])"
    using assms(2) by (rule keys_below_leaf_loop) (simp add: keys_below_def)
  then have "levels_in_range (nat (depth t)) [leaf_loop (hasher t) (dataBlocks t) []]"
    by (simp add: levels_in_range_def)
  from levels_loop_in_range [OF ls _ _ _ this] have "levels_in_range (nat (depth t)) ls"
    by simp
  with h b assms(2) show ?thesis by (auto simp: in_range_def)
qed

lemma updateElement_in_range:
  assumes "updateElement index v t = Inr t'" "in_range (nat (depth t)) t"
    "0 \<le> index" "index < 2 ^ nat (depth t)"
  shows "in_range (nat (depth t)) t'"
proof -
  let ?t = "t\<lparr>dataBlocks := Map_set index v (dataBlocks t)\<rparr>"
  from assms(1) obtain t1 where
    g: "generateTreeNodes ?t = Inr t1" and p: "persistTree t1 = Inr t'"
    by (auto simp: updateElement_def split: sum.splits)
  from assms(2-4) have "keys_below (2 ^ nat (depth ?t)) (dataBlocks ?t)"
    by (simp add: in_range_def keys_below_Map_set)
  from generateTreeNodes_in_range [OF g this] have "in_range (nat (depth t)) t1" by simp
  with p show ?thesis
    by (auto simp: persistTree_def in_range_def split: sum.splits)
qed

lemma updateElements_in_range:
  "updateElements us t = Inr t' \<Longrightarrow> in_range (nat (depth t)) t \<Longrightarrow>
   list_all (\<lambda>u. 0 \<le> fst u \<and> fst u < 2 ^ nat (depth t)) us \<Longrightarrow>
   in_range (nat (depth t)) t'"
proof (induction us arbitrary: t)
  case Nil
  then show ?case by simp
next
  case (Cons u us)
  obtain index v where u: "u = (index, v)" by (cases u)
  from Cons.prems(1) obtain t1 where
    t1: "updateElement index v t = Inr t1" and rest: "updateElements us t1 = Inr t'"
    unfolding u by (auto split: sum.splits)
  from Cons.prems(3) have i: "0 \<le> index" "index < 2 ^ nat (depth t)"
    and r: "list_all (\<lambda>u. 0 \<le> fst u \<and> fst u < 2 ^ nat (depth t)) us"
    by (simp_all add: u)
  have d: "depth t1 = depth t" using t1 by (rule updateElement_depth)
  from updateElement_in_range [OF t1 Cons.prems(2) i] have "in_range (nat (depth t1)) t1"
    by (simp add: d)
  from Cons.IH [OF rest this] r show ?case by (simp add: d)
qed

lemma keys_below_Map_get:
  "keys_below b m \<Longrightarrow> b \<le> k \<Longrightarrow> Map_get k m = None"
  by (induction m) (auto simp: keys_below_def Map_get_def)

lemma beyond_level:
  assumes "(2::int) ^ D \<le> index" "i < D"
  shows "(2::int) ^ (D - i) \<le> 2 * (index div 2 ^ Suc i)"
proof -
  from assms(2) have "D = Suc i + (D - Suc i)" by simp
  then have "(2::int) ^ D = 2 ^ Suc i * 2 ^ (D - Suc i)"
    by (metis power_add)
  with assms(1) have "(2::int) ^ Suc i * 2 ^ (D - Suc i) \<le> index" by simp
  then have "((2::int) ^ Suc i * 2 ^ (D - Suc i)) div 2 ^ Suc i \<le> index div 2 ^ Suc i"
    by (rule zdiv_mono1) simp
  then have "(2::int) ^ (D - Suc i) \<le> index div 2 ^ Suc i"
    by simp
  moreover from assms(2) have "(2::int) ^ (D - i) = 2 * 2 ^ (D - Suc i)"
    by (metis Suc_diff_Suc power_Suc)
  ultimately show ?thesis by simp
qed

lemma levels_in_range_empty: "levels_in_range D (replicate k [])"
  by (simp add: levels_in_range_def list_all_iff keys_below_def)

lemma cached_or_zero_beyond:
  assumes "levels_in_range D ls" "i < length ls" "i < D" "2 ^ D \<le> index"
  shows "cached_or_zero hs (ls ! i) i (2 * (index div 2 ^ Suc i)) = Z_spec hs i"
    and "cached_or_zero hs (ls ! i) i (2 * (index div 2 ^ Suc i) + 1) = Z_spec hs i"
proof -
  from levels_in_range_nth [OF assms(1,2)] have k: "keys_below (2 ^ (D - i)) (ls ! i)" .
  from beyond_level [OF assms(4,3)] have b: "2 ^ (D - i) \<le> 2 * (index div 2 ^ Suc i)" .
  then have b': "2 ^ (D - i) \<le> 2 * (index div 2 ^ Suc i) + 1" by simp
  from keys_below_Map_get [OF k b]
  show "cached_or_zero hs (ls ! i) i (2 * (index div 2 ^ Suc i)) = Z_spec hs i"
    by (simp add: cached_or_zero_def)
  from keys_below_Map_get [OF k b']
  show "cached_or_zero hs (ls ! i) i (2 * (index div 2 ^ Suc i) + 1) = Z_spec hs i"
    by (simp add: cached_or_zero_def)
qed

text \<open>
  The claim fails for a natural number from \<open>2^53\<close> on. On the empty tree of depth 1,
  \<^verbatim>\<open>getHashPath(2^53)\<close> computes \<^verbatim>\<open>indexOfSibling = 2^53 + 1\<close>, which as a double is
  \<open>2^53\<close> again; neither index is below the other, so both writes go to slot 1 of the
  pair and slot 0 stays a hole: the entry is \<^verbatim>\<open>[undefined, Z[0]]\<close>, not the pair
  \<^verbatim>\<open>[Z[0], Z[0]]\<close> of the absent nodes.
\<close>

theorem getHashPath_beyond_safe_integers:
  "indexOfSibling (2 ^ 53) = 2 ^ 53 \<and>
   fresh_path 1 symbolic_hasher [] (2 ^ 53) = Inr [[None, Some (Hash zero64)]]"
  by code_simp

text \<open>
  Claim C10, for indices of magnitude below \<open>2^53\<close>. Take a tree opened by
  \<^verbatim>\<open>MerkleTree.new\<close> on a store without data for its name, of depth \<open>d\<close>, and any
  sequence of \<^verbatim>\<open>updateElement\<close> calls at indices that are numbers. Every call returns,
  and then for every integer \<open>index\<close> of magnitude below \<open>2^53\<close>, in range or not,
  \<^verbatim>\<open>getHashPath(index)\<close> returns without an exception exactly \<open>d\<close> pairs; each entry is
  the cached digest of its node, or the zero hash of the level when the cache of the
  level has no entry for it, and is never \<^verbatim>\<open>undefined\<close>. When all updated indices
  are in \<open>[0, 2^d)\<close> and \<open>index \<ge> 2^d\<close>, every pair is the pair of zero hashes of its
  level.
\<close>

theorem getHashPath_total_safe:
  assumes "MerkleTree_new store n d hs = Inr t0" and "store n = None"
    and "list_all (\<lambda>u. is_double (fst u)) us" and "safe_integer index"
  shows "\<exists>t ls p. updateElements us t0 = Inr t \<and>
           hashes t = map Some ls \<and> length ls = Suc (nat d) \<and>
           getHashPath t index = Inr p \<and> length p = nat d \<and>
           (\<forall>i<nat d. p ! i =
              [Some (cached_or_zero hs (ls ! i) i (2 * (index div 2 ^ Suc i))),
               Some (cached_or_zero hs (ls ! i) i (2 * (index div 2 ^ Suc i) + 1))]) \<and>
           (list_all (\<lambda>u. 0 \<le> fst u \<and> fst u < 2 ^ nat d) us \<and> 2 ^ nat d \<le> index \<longrightarrow>
              p = map (\<lambda>i. [Some (Z_spec hs i), Some (Z_spec hs i)]) [0..<nat d])"
proof -
  have range: "1 \<le> d \<and> d \<le> 32"
  proof (rule ccontr)
    assume "\<not> (1 \<le> d \<and> d \<le> 32)"
    then have "MerkleTree_new store n d hs = Inl Bad_depth"
      by (simp add: MerkleTree_new_def MerkleTree_constructor_def MAX_DEPTH_def)
    with assms(1) show False by simp
  qed
  with new_fresh [of d store n hs] assms obtain data where
    t0: "t0 = \<lparr>db = store(n \<mapsto> data), name = n, depth = d, hasher = hs,
          root = Some (Z_spec hs (nat d)),
          dataBlocks = [], hashes = replicate (Suc (nat d)) (Some []),
          zeroHashesByLevel = map (Z_spec hs) [0..<Suc (nat d)]\<rparr>"
    by auto
  have h0: "hashes t0 = map Some (replicate (Suc (nat d)) [])"
    by (simp add: t0)
  then have wf0: "well_formed d hs t0"
    by (auto simp: well_formed_def t0 intro: exI [of _ "replicate (Suc (nat d)) []"])
  have "keys_below (2 ^ nat (depth t0)) (dataBlocks t0)"
    by (simp add: t0 keys_below_def)
  with h0 levels_in_range_empty [of "nat (depth t0)" "Suc (nat d)"]
  have r0: "in_range (nat (depth t0)) t0"
    unfolding in_range_def by blast
  have d0: "depth t0 = d" by (simp add: t0)
  from updateElements_well_formed [OF wf0, of us] obtain t where
    t: "updateElements us t0 = Inr t" and wf: "well_formed d hs t"
    by blast
  from wf obtain ls where
    ls: "hashes t = map Some ls" "length ls = Suc (nat d)" and
    dp: "depth t = d" and
    Z: "zeroHashesByLevel t = map (Z_spec hs) [0..<Suc (nat d)]"
    by (auto simp: well_formed_def)
  have "\<forall>j<nat d. array_get (hashes t) (int (0 + j)) \<noteq> None"
    using ls by (simp add: array_get_map_Some)
  from hashPath_loop_Inr [OF this, of index "[]"] obtain p where
    p: "hashPath_loop t 0 (nat d) index [] = Inr p"
    by blast
  from hashPath_loop_shape [OF p assms(4)] have
    len: "length p = nat d" and
    sh: "\<forall>i<nat d. p ! i =
        [node_digest t i (2 * (index div 2 ^ Suc i)),
         node_digest t i (2 * (index div 2 ^ Suc i) + 1)]"
    by simp_all
  have pairs: "p ! i =
      [Some (cached_or_zero hs (ls ! i) i (2 * (index div 2 ^ Suc i))),
       Some (cached_or_zero hs (ls ! i) i (2 * (index div 2 ^ Suc i) + 1))]"
    if "i < nat d" for i
  proof -
    from that ls have "i < length ls" "i < Suc (nat d)" by simp_all
    from node_digest_well_formed [OF ls(1) this(1) Z this(2)] sh that
    show ?thesis by simp
  qed
  have beyond: "p = map (\<lambda>i. [Some (Z_spec hs i), Some (Z_spec hs i)]) [0..<nat d]"
    if us: "list_all (\<lambda>u. 0 \<le> fst u \<and> fst u < 2 ^ nat d) us" and ix: "2 ^ nat d \<le> index"
  proof -
    from updateElements_in_range [OF t r0] us have "in_range (nat d) t"
      by (simp add: d0)
    with ls(1) have lr: "levels_in_range (nat d) ls"
      by (auto simp: in_range_def map_eq_conv inj_on_def dest!: map_inj_on [rotated])
    show ?thesis
    proof (rule nth_equalityI)
      show "length p = length (map (\<lambda>i. [Some (Z_spec hs i), Some (Z_spec hs i)]) [0..<nat d])"
        using len by simp
    next
      fix i assume "i < length p"
      with len have i: "i < nat d" by simp
      with ls have il: "i < length ls" by simp
      from pairs [OF i] cached_or_zero_beyond [OF lr il i ix, of hs] i
      show "p ! i = map (\<lambda>i. [Some (Z_spec hs i), Some (Z_spec hs i)]) [0..<nat d] ! i"
        by simp
    qed
  qed
  from t ls p len dp pairs beyond show ?thesis
    by (auto simp: getHashPath_def)
qed

theorem getHashPath_total_safe_witness:
  "\<exists>t0 t p. MerkleTree_new empty_db ''tree'' 2 symbolic_hasher = Inr t0 \<and>
     updateElements [(1, ones64)] t0 = Inr t \<and>
     getHashPath t 7 = Inr p \<and> length p = 2 \<and>
     p = [[Some (Hash zero64), Some (Hash zero64)],
          [Some (Compress (Hash zero64) (Hash zero64)),
           Some (Compress (Hash zero64) (Hash zero64))]]"
proof -
  let ?new = "MerkleTree_new empty_db ''tree'' 2 symbolic_hasher"
  have "\<not> isl ?new" by code_simp
  then obtain t0 where t0: "?new = Inr t0" by (cases ?new) auto
  have e: "empty_db ''tree'' = None" by (simp add: empty_db_def)
  have dbl: "list_all (\<lambda>u. is_double (fst u)) [(1::int, ones64)]"
    by (simp add: is_double_def double_round_exact)
  have safe: "safe_integer 7" by (simp add: safe_integer_def)
  have us: "list_all (\<lambda>u. 0 \<le> fst u \<and> fst u < (2::int) ^ nat 2) [(1, ones64)]" by simp
  have ix: "(2::int) ^ nat 2 \<le> 7" by simp
  from getHashPath_total_safe [of empty_db "''tree''" 2 symbolic_hasher t0 "[(1, ones64)]" 7]
    t0 e dbl safe
  obtain t p where
    t: "updateElements [(1, ones64)] t0 = Inr t" and
    p: "getHashPath t 7 = Inr p" "length p = nat 2" and
    z: "list_all (\<lambda>u. 0 \<le> fst u \<and> fst u < (2::int) ^ nat 2) [(1, ones64)] \<and> (2::int) ^ nat 2 \<le> 7 \<longrightarrow>
          p = map (\<lambda>i. [Some (Z_spec symbolic_hasher i), Some (Z_spec symbolic_hasher i)])
                [0..<nat 2]"
    by blast
  from z us ix have
    "p = map (\<lambda>i. [Some (Z_spec symbolic_hasher i), Some (Z_spec symbolic_hasher i)])
           [0..<nat 2]"
    by blast
  then have "p = [[Some (Hash zero64), Some (Hash zero64)],
          [Some (Compress (Hash zero64) (Hash zero64)),
           Some (Compress (Hash zero64) (Hash zero64))]]"
    by (simp add: symbolic_hasher_def eval_nat_numeral)
  with t0 t p show ?thesis by simp
qed

section \<open>The order of the two children in \<^verbatim>\<open>generateTreeNodes\<close>\<close>

text \<open>
  \<^verbatim>\<open>generateTreeNodes\<close> calls \<^verbatim>\<open>compress(hash, hashOfSiblingNode)\<close>: the digest of the
  entry it visits comes first and the digest of its sibling second, whichever of the
  two has the lower index. \<^verbatim>\<open>getHashPath\<close> orders the same two digests by index. The
  runs below are on a tree of depth 1, opened on an empty store; they hold for every
  hasher, and the last conjunct evaluates them for the hasher without collisions.
\<close>

lemmas run_defs =
  fresh_then_def MerkleTree_new_def MerkleTree_constructor_def MAX_DEPTH_def
  generateZeroHashesByLevel_def generateTreeNodes_def persistTree_def updateElement_def
  restorePersistedTree_def getRoot_def getHashPath_def path_pair_def
  Let_def zero_at_def Map_size_def Map_get_def Map_has_def array_put_def array_get_def
  indexOfSibling_def double_round_def indexOfParentNode_def Math_round_half_def empty_db_def
  is_array_index_def goes_before_def node_digest_def

text \<open>
  Claim C4 (not met by the code). After \<^verbatim>\<open>updateElement(1, v)\<close> the cache holds
  \<open>hash(v)\<close> at level 0, index 1, and nothing at index 0, whose digest is therefore the
  zero hash \<open>Z[0] = hash(zero64)\<close>. The digest cached at level 1, index 0, is
  \<open>compress(hash(v), Z[0])\<close>: the digest of child 1 first, that of child 0 second,
  and not \<open>compress(Z[0], hash(v))\<close> as the claim requires.
\<close>

theorem parent_of_odd_child:
  "(\<exists>t. fresh_then 1 hs [(1, v)] = Inr t \<and>
        hashes t = [Some [(1, hash hs v)],
                    Some [(0, compress hs (hash hs v) (hash hs zero64))]] \<and>
        node_digest t 0 0 = Some (hash hs zero64) \<and>
        node_digest t 0 1 = Some (hash hs v)) \<and>
   (case fresh_then 1 symbolic_hasher [(1, ones64)] of
      Inl e \<Rightarrow> False
    | Inr t \<Rightarrow>
        (case (node_digest t 0 0, node_digest t 0 1) of
           (Some l, Some r) \<Rightarrow> node_digest t 1 0 \<noteq> Some (Compress l r)
         | other \<Rightarrow> False))"
proof (rule conjI)
  show "\<exists>t. fresh_then 1 hs [(1, v)] = Inr t \<and>
        hashes t = [Some [(1, hash hs v)],
                    Some [(0, compress hs (hash hs v) (hash hs zero64))]] \<and>
        node_digest t 0 0 = Some (hash hs zero64) \<and>
        node_digest t 0 1 = Some (hash hs v)"
    by (simp add: run_defs)
  show "case fresh_then 1 symbolic_hasher [(1, ones64)] of
      Inl e \<Rightarrow> False
    | Inr t \<Rightarrow>
        (case (node_digest t 0 0, node_digest t 0 1) of
           (Some l, Some r) \<Rightarrow> node_digest t 1 0 \<noteq> Some (Compress l r)
         | other \<Rightarrow> False)"
    by code_simp
qed

text \<open>
  Claim C1 (not met by the code). On a fresh tree of depth 1, after
  \<^verbatim>\<open>updateElement(1, v)\<close> the root is \<open>compress(hash(v), hash(zero64))\<close>, while the root
  of the dense reference tree with \<open>v\<close> at leaf 1 is \<open>compress(hash(zero64), hash(v))\<close>.
\<close>

theorem root_after_update_of_odd_index:
  "map_sum id getRoot (fresh_then 1 hs [(1, v)]) =
     Inr (Some (compress hs (hash hs v) (hash hs zero64))) \<and>
   dense_root hs 1 1 v = Some (compress hs (hash hs zero64) (hash hs v)) \<and>
   map_sum id getRoot (fresh_then 1 symbolic_hasher [(1, ones64)]) \<noteq>
     Inr (dense_root symbolic_hasher 1 1 ones64)"
proof (intro conjI)
  show "map_sum id getRoot (fresh_then 1 hs [(1, v)]) =
     Inr (Some (compress hs (hash hs v) (hash hs zero64)))"
    by (simp add: run_defs)
  show "dense_root hs 1 1 v = Some (compress hs (hash hs zero64) (hash hs v))"
    by (simp add: dense_root_def eval_nat_numeral)
  show "map_sum id getRoot (fresh_then 1 symbolic_hasher [(1, ones64)]) \<noteq>
     Inr (dense_root symbolic_hasher 1 1 ones64)"
    by code_simp
qed

text \<open>
  Claim C2 (not met by the code). On a fresh tree of depth 1, the assignments
  \<open>0 \<mapsto> a\<close> and \<open>1 \<mapsto> b\<close> give the root \<open>compress(hash(a), hash(b))\<close> when index 0
  is updated first and \<open>compress(hash(b), hash(a))\<close> when index 1 is updated first:
  the pair is compressed in the order in which the level below iterates.
\<close>

theorem root_depends_on_update_order:
  "map_sum id getRoot (fresh_then 1 hs [(0, a), (1, b)]) =
     Inr (Some (compress hs (hash hs a) (hash hs b))) \<and>
   map_sum id getRoot (fresh_then 1 hs [(1, b), (0, a)]) =
     Inr (Some (compress hs (hash hs b) (hash hs a))) \<and>
   map_sum id getRoot (fresh_then 1 symbolic_hasher [(0, zero64), (1, ones64)]) \<noteq>
     map_sum id getRoot (fresh_then 1 symbolic_hasher [(1, ones64), (0, zero64)])"
proof (intro conjI)
  show "map_sum id getRoot (fresh_then 1 hs [(0, a), (1, b)]) =
     Inr (Some (compress hs (hash hs a) (hash hs b)))"
    by (simp add: run_defs)
  show "map_sum id getRoot (fresh_then 1 hs [(1, b), (0, a)]) =
     Inr (Some (compress hs (hash hs b) (hash hs a)))"
    by (simp add: run_defs)
  show "map_sum id getRoot (fresh_then 1 symbolic_hasher [(0, zero64), (1, ones64)]) \<noteq>
     map_sum id getRoot (fresh_then 1 symbolic_hasher [(1, ones64), (0, zero64)])"
    by code_simp
qed

text \<open>
  Claim C3 (not met by the code). On a fresh tree of depth 1, after
  \<^verbatim>\<open>updateElement(1, v)\<close>, \<^verbatim>\<open>getHashPath(1)\<close> is the single pair
  \<open>(hash(zero64), hash(v))\<close>. Folding it with the seed \<open>hash(v)\<close> on the right, the side
  of the odd index 1, gives \<open>compress(hash(zero64), hash(v))\<close>, while \<^verbatim>\<open>getRoot()\<close> is
  \<open>compress(hash(v), hash(zero64))\<close>.
\<close>

theorem hash_path_fold_of_odd_index:
  "(\<exists>t. fresh_then 1 hs [(1, v)] = Inr t \<and> Map_get 1 (dataBlocks t) = Some v \<and>
        getHashPath t 1 = Inr [[Some (hash hs zero64), Some (hash hs v)]] \<and>
        fold_hash_path hs 1 (hash hs v) [[Some (hash hs zero64), Some (hash hs v)]] =
          Some (compress hs (hash hs zero64) (hash hs v)) \<and>
        getRoot t = Some (compress hs (hash hs v) (hash hs zero64))) \<and>
   (case fresh_then 1 symbolic_hasher [(1, ones64)] of
      Inl e \<Rightarrow> False
    | Inr t \<Rightarrow>
        (case getHashPath t 1 of
           Inl e \<Rightarrow> False
         | Inr p \<Rightarrow> fold_hash_path symbolic_hasher 1 (Hash ones64) p \<noteq> getRoot t))"
proof (rule conjI)
  show "\<exists>t. fresh_then 1 hs [(1, v)] = Inr t \<and> Map_get 1 (dataBlocks t) = Some v \<and>
        getHashPath t 1 = Inr [[Some (hash hs zero64), Some (hash hs v)]] \<and>
        fold_hash_path hs 1 (hash hs v) [[Some (hash hs zero64), Some (hash hs v)]] =
          Some (compress hs (hash hs zero64) (hash hs v)) \<and>
        getRoot t = Some (compress hs (hash hs v) (hash hs zero64))"
    by (simp add: run_defs)
  show "case fresh_then 1 symbolic_hasher [(1, ones64)] of
      Inl e \<Rightarrow> False
    | Inr t \<Rightarrow>
        (case getHashPath t 1 of
           Inl e \<Rightarrow> False
         | Inr p \<Rightarrow> fold_hash_path symbolic_hasher 1 (Hash ones64) p \<noteq> getRoot t)"
    by code_simp
qed

section \<open>Reopening an empty tree\<close>

text \<open>
  Claim C5 (not met by the code). \<^verbatim>\<open>MerkleTree.new\<close> on an empty store builds the empty
  tree of depth 1, whose root is \<open>Z[1]\<close>, and persists the document with two empty
  levels. \<^verbatim>\<open>MerkleTree.new\<close> on that store with the same name and depth restores the
  same cache and depth, but \<^verbatim>\<open>restorePersistedTree\<close> sets the root to
  \<^verbatim>\<open>hashes[1].get(0)\<close>, which is \<^verbatim>\<open>undefined\<close> for the empty top level.
\<close>

theorem reopened_empty_tree_root:
  "\<exists>t0 t1. MerkleTree_new empty_db ''tree'' 1 hs = Inr t0 \<and>
       getRoot t0 = Some (compress hs (hash hs zero64) (hash hs zero64)) \<and>
       db t0 ''tree'' = Some [(0, []), (1, [])] \<and>
       MerkleTree_new (db t0) ''tree'' 1 hs = Inr t1 \<and>
       hashes t1 = hashes t0 \<and> depth t1 = depth t0 \<and>
       getRoot t1 = None"
  by (simp add: run_defs)

end
